theory Spec2Isabelle
  imports Main "HOL-Library.Multiset"
begin

section \<open>The tree barrier of \<^verbatim>\<open>fastlib/thor/rpc.cc\<close>\<close>

subsection \<open>Topology, messages and the process state\<close>

text \<open>
  The topology functions \<^verbatim>\<open>rpc::is_root()\<close>, \<^verbatim>\<open>rpc::parent()\<close>,
  \<^verbatim>\<open>rpc::n_children()\<close> and \<^verbatim>\<open>rpc::child(i)\<close> are declared outside
  \<^verbatim>\<open>rpc.cc\<close>; they are read-only for the barrier, so the model takes what they return
  as a parameter: a record holding the three values, with the children ranks as a list
  (\<open>child(i)\<close> is its \<open>i\<close>-th element and \<open>n_children()\<close> its length).
  Ranks and channel ids are C \<^verbatim>\<open>int\<close>s and are modelled as \<open>int\<close>; the counter
  \<^verbatim>\<open>n_received_\<close> starts at 0 and is only incremented, and is modelled as \<open>nat\<close>.
  It is compared with the number of children only, which is far below the range of a C
  \<^verbatim>\<open>int\<close>, so no wrap-around is modelled.
\<close>

record topology =
  is_root :: bool
  parent :: int
  children :: "int list"

definition n_children :: "topology \<Rightarrow> nat" where
  "n_children t = length (children t)"

definition child :: "topology \<Rightarrow> nat \<Rightarrow> int" where
  "child t i = children t ! i"

record message =
  msg_peer :: int
  msg_channel :: int
  msg_size :: nat

text \<open>
  The calls the barrier makes into the rest of the RPC layer are logged, oldest first, so
  that the order of the calls can be stated.
\<close>

datatype event =
    EvWriteFlush
  | EvRegister int
  | EvUnregister int
  | EvTransactionDone
  | EvSend message
  | EvCondDone
  | EvDeliver message

datatype handler = BarrierChannel

text \<open>
  The state of one process while one \<^verbatim>\<open>BarrierChannel\<close> object exists: the fields of its
  \<^verbatim>\<open>BarrierTransaction\<close> (\<open>channel\<close> is the channel number kept by the
  \<^verbatim>\<open>Transaction\<close> base class, \<open>cond_done\<close> the state of the \<^verbatim>\<open>DoneCondition\<close>),
  the process-wide channel registry, and the log of calls.
\<close>

record world =
  channel :: int
  n_received :: nat
  cond_done :: bool
  registry :: "int \<Rightarrow> handler option"
  trace :: "event list"

datatype error =
    Unexpected_sender int int nat
  | Unregistered_channel int

datatype outcome = Returned | Blocked | Aborted error

subsection \<open>Collaborators that are not defined in \<^verbatim>\<open>rpc.cc\<close>\<close>

text \<open>
  Modelled from the spec: \<^verbatim>\<open>rpc::Register\<close> is missing from the sources; the spec's
  \<open>Register(id, handler)\<close> installs the handler at the id and overwrites what was there.
\<close>

definition Register :: "int \<Rightarrow> handler \<Rightarrow> world \<Rightarrow> world" where
  "Register channel_num h w =
     w\<lparr>registry := (registry w)(channel_num \<mapsto> h),
       trace := trace w @ [EvRegister channel_num]\<rparr>"

text \<open>
  Modelled from the spec: \<^verbatim>\<open>rpc::Unregister\<close> is missing from the sources; the spec's
  \<open>Unregister(id)\<close> clears the entry at the id and is idempotent on an empty slot.
\<close>

definition Unregister :: "int \<Rightarrow> world \<Rightarrow> world" where
  "Unregister channel_num w =
     w\<lparr>registry := (registry w)(channel_num := None),
       trace := trace w @ [EvUnregister channel_num]\<rparr>"

text \<open>
  Modelled from the spec: \<^verbatim>\<open>rpc::WriteFlush\<close> is missing from the sources; the spec's
  \<open>WriteFlush()\<close> returns once the earlier sends have been handed to the transport. The
  model records that the call was made and has returned.
\<close>

definition WriteFlush :: "world \<Rightarrow> world" where
  "WriteFlush w = w\<lparr>trace := trace w @ [EvWriteFlush]\<rparr>"

text \<open>
  Modelled from the spec: the \<^verbatim>\<open>Transaction\<close> base class is missing from the sources.
  \<^verbatim>\<open>Transaction::Init\<close> binds the transaction to its channel, \<^verbatim>\<open>channel()\<close> reads
  that number back, \<^verbatim>\<open>CreateMessage(peer, size)\<close> makes an outbound message for the peer
  on the transaction's channel with a payload of the given size, \<^verbatim>\<open>Send\<close> hands a message
  to the transport, and \<^verbatim>\<open>Done()\<close> tells the RPC layer that the transaction is over.
\<close>

definition Transaction_Init :: "int \<Rightarrow> world \<Rightarrow> world" where
  "Transaction_Init channel_num w = w\<lparr>channel := channel_num\<rparr>"

definition CreateMessage :: "world \<Rightarrow> int \<Rightarrow> nat \<Rightarrow> message" where
  "CreateMessage w peer sz =
     \<lparr>msg_peer = peer, msg_channel = channel w, msg_size = sz\<rparr>"

definition Send :: "message \<Rightarrow> world \<Rightarrow> world" where
  "Send m w = w\<lparr>trace := trace w @ [EvSend m]\<rparr>"

definition Transaction_Done :: "world \<Rightarrow> world" where
  "Transaction_Done w = w\<lparr>trace := trace w @ [EvTransactionDone]\<rparr>"

text \<open>
  Modelled from the spec: \<^verbatim>\<open>DoneCondition\<close> is missing from the sources; the spec's
  \<open>Done()\<close> moves it from pending to done.
\<close>

definition cond_Done :: "world \<Rightarrow> world" where
  "cond_Done w = w\<lparr>cond_done := True, trace := trace w @ [EvCondDone]\<rparr>"

subsection \<open>\<^verbatim>\<open>BarrierTransaction\<close>\<close>

definition DoMessage :: "int \<Rightarrow> world \<Rightarrow> world" where
  "DoMessage peer w = Send (CreateMessage w peer 0) w"

text \<open>The loop of the completion branch: \<^verbatim>\<open>for (i = 0; i < n_children(); i++)\<close>.\<close>

function wake_children :: "topology \<Rightarrow> nat \<Rightarrow> world \<Rightarrow> world" where
  "wake_children t i w =
     (if i < n_children t then wake_children t (Suc i) (DoMessage (child t i) w) else w)"
  by pat_completeness auto
termination
  by (relation "measure (\<lambda>(t, i, w). n_children t - i)") auto

definition CheckState :: "topology \<Rightarrow> world \<Rightarrow> world" where
  "CheckState t w =
     (if n_received w \<ge> n_children t then
        (if is_root t \<or> n_received w > n_children t then
           cond_Done (wake_children t 0 (Unregister (channel w) (Transaction_Done w)))
         else DoMessage (parent t) w)
      else w)"

text \<open>The loop of \<^verbatim>\<open>IsValidSender_\<close>, which returns at the first child equal to the peer.\<close>

function is_child_from :: "topology \<Rightarrow> nat \<Rightarrow> int \<Rightarrow> bool" where
  "is_child_from t i peer =
     (if i < n_children t then
        (if peer = child t i then True else is_child_from t (Suc i) peer)
      else False)"
  by pat_completeness auto
termination
  by (relation "measure (\<lambda>(t, i, peer). n_children t - i)") auto

definition IsValidSender :: "topology \<Rightarrow> int \<Rightarrow> world \<Rightarrow> bool" where
  "IsValidSender t peer w =
     (if n_received w = n_children t then peer = parent t else is_child_from t 0 peer)"

definition Init :: "topology \<Rightarrow> int \<Rightarrow> world \<Rightarrow> world" where
  "Init t channel_num w = CheckState t ((Transaction_Init channel_num w)\<lparr>n_received := 0\<rparr>)"

text \<open>
  \<^verbatim>\<open>FATAL\<close> ends the process, so nothing after it runs: the result is the error, with the
  three values of the diagnostic. \<^verbatim>\<open>delete message\<close> frees the message and changes
  nothing in the state of the model.
\<close>

definition HandleMessage :: "topology \<Rightarrow> message \<Rightarrow> world \<Rightarrow> error + world" where
  "HandleMessage t m w =
     (if \<not> IsValidSender t (msg_peer m) w then
        Inl (Unexpected_sender (msg_peer m) (channel w) (n_received w))
      else Inr (CheckState t (w\<lparr>n_received := n_received w + 1\<rparr>)))"

subsection \<open>The dispatch path and the entry point\<close>

text \<open>
  Modelled from the spec: the dispatch loop is missing from the sources. The spec's
  \<open>Dispatch(message)\<close> looks the message's channel up in the registry; an absent entry is
  fatal, otherwise the message goes to the handler's transaction
  (\<^verbatim>\<open>BarrierChannel::GetTransaction\<close> returns its only transaction whatever the message).
  The model follows one barrier object, which is the only handler it knows; the messages
  of other channels belong to other handlers and are not part of the inbox of the model.
  A delivery is logged before the transaction handles the message.
\<close>

definition Dispatch :: "topology \<Rightarrow> message \<Rightarrow> world \<Rightarrow> error + world" where
  "Dispatch t m w =
     (case registry w (msg_channel m) of
        None \<Rightarrow> Inl (Unregistered_channel (msg_channel m))
      | Some BarrierChannel \<Rightarrow> HandleMessage t m (w\<lparr>trace := trace w @ [EvDeliver m]\<rparr>))"

text \<open>
  \<^verbatim>\<open>Wait\<close> blocks the calling thread until the condition is done; meanwhile the dispatch
  thread delivers the inbound messages, given here as the list of messages in the order of
  their arrival. When the list is used up and the condition is still pending, the call
  stays blocked.
\<close>

fun Wait :: "topology \<Rightarrow> message list \<Rightarrow> world \<Rightarrow> outcome \<times> world" where
  "Wait t [] w = (if cond_done w then (Returned, w) else (Blocked, w))"
| "Wait t (m # ms) w =
     (if cond_done w then (Returned, w)
      else (case Dispatch t m w of
              Inl e \<Rightarrow> (Aborted e, w)
            | Inr w' \<Rightarrow> Wait t ms w'))"

definition Doit :: "topology \<Rightarrow> int \<Rightarrow> message list \<Rightarrow> world \<Rightarrow> outcome \<times> world" where
  "Doit t channel_num inbox w =
     Wait t inbox (Register channel_num BarrierChannel (Init t channel_num w))"

text \<open>
  \<^verbatim>\<open>rpc::Barrier\<close>: the condition of the newly constructed \<^verbatim>\<open>BarrierChannel\<close> is
  pending; its other fields are not initialised by the constructor and keep whatever the
  incoming state holds.
\<close>

definition Barrier :: "topology \<Rightarrow> int \<Rightarrow> message list \<Rightarrow> world \<Rightarrow> outcome \<times> world" where
  "Barrier t channel_num inbox w =
     Doit t channel_num inbox (WriteFlush (w\<lparr>cond_done := False\<rparr>))"

text \<open>
  The dispatch thread on its own: it delivers message after message for as long as the
  process lives, whether or not the calling thread has resumed. The result is the last
  state reached and the fatal error that ended the process, if any.
\<close>

fun deliver_all :: "topology \<Rightarrow> message list \<Rightarrow> world \<Rightarrow> world \<times> error option" where
  "deliver_all t [] w = (w, None)"
| "deliver_all t (m # ms) w =
     (case Dispatch t m w of
        Inl e \<Rightarrow> (w, Some e)
      | Inr w' \<Rightarrow> deliver_all t ms w')"

text \<open>
  The state of the process at the moment the calling thread of \<^verbatim>\<open>rpc::Barrier\<close> reaches
  \<^verbatim>\<open>transaction_.Wait()\<close>: the statements of \<^verbatim>\<open>Barrier\<close> and \<^verbatim>\<open>Doit\<close> before it
  have run.
\<close>

definition entered :: "topology \<Rightarrow> int \<Rightarrow> world \<Rightarrow> world" where
  "entered t channel_num w =
     Register channel_num BarrierChannel
       (Init t channel_num (WriteFlush (w\<lparr>cond_done := False\<rparr>)))"

text \<open>
  The order of the specification, for comparison with \<^verbatim>\<open>Doit\<close>: the channel is
  registered first, then \<^verbatim>\<open>Init\<close> runs, then the call waits.
\<close>

definition Doit_registering_first ::
  "topology \<Rightarrow> int \<Rightarrow> message list \<Rightarrow> world \<Rightarrow> outcome \<times> world" where
  "Doit_registering_first t channel_num inbox w =
     Wait t inbox (Init t channel_num (Register channel_num BarrierChannel w))"

text \<open>The events logged between an earlier state and a later one.\<close>

definition events_since :: "world \<Rightarrow> world \<Rightarrow> event list" where
  "events_since w w' = drop (length (trace w)) (trace w')"

text \<open>The wake messages of the completion branch, one for each child index.\<close>

definition wake_events :: "topology \<Rightarrow> int \<Rightarrow> event list" where
  "wake_events t ch =
     map (\<lambda>i. EvSend \<lparr>msg_peer = child t i, msg_channel = ch, msg_size = 0\<rparr>) [0..<n_children t]"

text \<open>
  A barrier message from a peer on a channel, as \<^verbatim>\<open>DoMessage_\<close> of the peer builds it:
  no payload.
\<close>

definition ready :: "int \<Rightarrow> int \<Rightarrow> message" where
  "ready ch p = \<lparr>msg_peer = p, msg_channel = ch, msg_size = 0\<rparr>"

text \<open>
  The condition under which the completion branch of \<^verbatim>\<open>CheckState_\<close> is taken.
\<close>

definition completes :: "topology \<Rightarrow> world \<Rightarrow> bool" where
  "completes t w \<longleftrightarrow> (is_root t \<and> n_received w = n_children t) \<or> n_children t < n_received w"

text \<open>
  Two invariants of a barrier instance on channel \<open>ch\<close>: the counter stays within
  \<open>n_children + 1\<close> and the channel is unregistered when it gets there; and an event
  of the completion branch has been logged once more than at the start exactly when the
  condition is done.
\<close>

definition bounded :: "topology \<Rightarrow> int \<Rightarrow> world \<Rightarrow> bool" where
  "bounded t ch w \<longleftrightarrow>
     channel w = ch \<and> n_received w \<le> n_children t + 1
     \<and> (n_received w = n_children t + 1 \<longrightarrow> registry w ch = None)"

definition once :: "event \<Rightarrow> nat \<Rightarrow> world \<Rightarrow> bool" where
  "once e c w \<longleftrightarrow> count_list (trace w) e = c + (if cond_done w then 1 else 0)"

section \<open>\<^verbatim>\<open>MakeKdTreeMidpoint\<close> of \<^verbatim>\<open>fastlib/tree/kdtree.h\<close>\<close>

text \<open>
  \<^verbatim>\<open>ArrayList\<close> is declared outside \<^verbatim>\<open>kdtree.h\<close>. The model takes an
  \<^verbatim>\<open>ArrayList<index_t>\<close> as a list of cells; \<^verbatim>\<open>Init(n)\<close> gives \<open>n\<close> cells that
  hold no value yet (\<open>None\<close>), and \<^verbatim>\<open>operator[]\<close> reads or writes one cell. A read or
  write outside the array, a read of a cell that was never written and a read through a
  null pointer are errors of the model. \<^verbatim>\<open>index_t\<close> counts columns and is modelled as
  \<open>nat\<close>.
\<close>

datatype kd_error = Null_dereference | Out_of_bounds | Uninitialised_read

type_synonym index_array = "nat option list"

definition ArrayList_Init :: "nat \<Rightarrow> index_array" where
  "ArrayList_Init n = replicate n None"

text \<open>
  The first loop of \<^verbatim>\<open>MakeKdTreeMidpoint\<close>:
  for \<open>i\<close> from 0 up to \<^verbatim>\<open>matrix.n_cols()\<close>, cell \<open>i\<close> of \<^verbatim>\<open>old_from_new\<close> is
  set to \<open>i\<close>. The array has that many cells, so every write is in range.
\<close>

function fill_old_from_new :: "nat \<Rightarrow> nat \<Rightarrow> index_array \<Rightarrow> index_array" where
  "fill_old_from_new n i old_from_new =
     (if i < n then fill_old_from_new n (Suc i) (old_from_new[i := Some i]) else old_from_new)"
  by pat_completeness auto
termination
  by (relation "measure (\<lambda>(n, i, a). n - i)") auto

text \<open>
  The last loop: for \<open>i\<close> from 0 up to \<^verbatim>\<open>matrix.n_cols()\<close>, the cell of
  \<^verbatim>\<open>new_from_old\<close> whose index is cell \<open>i\<close> of \<^verbatim>\<open>old_from_new\<close> is set to
  \<open>i\<close>. It reads through the caller's pointer \<^verbatim>\<open>old_from_new\<close>, which is
  \<open>None\<close> when the caller passed a null pointer.
\<close>

function fill_new_from_old ::
  "nat \<Rightarrow> nat \<Rightarrow> index_array option \<Rightarrow> index_array \<Rightarrow> kd_error + index_array" where
  "fill_new_from_old n i old_from_new new_from_old =
     (if i < n then
        (case old_from_new of
           None \<Rightarrow> Inl Null_dereference
         | Some old \<Rightarrow>
             (if length old \<le> i then Inl Out_of_bounds
              else (case old ! i of
                      None \<Rightarrow> Inl Uninitialised_read
                    | Some k \<Rightarrow>
                        (if length new_from_old \<le> k then Inl Out_of_bounds
                         else fill_new_from_old n (Suc i) old_from_new
                                (new_from_old[k := Some i])))))
      else Inr new_from_old)"
  by pat_completeness auto
termination
  by (relation "measure (\<lambda>(n, i, old, new). n - i)") auto

text \<open>
  \<^verbatim>\<open>SplitKdTreeMidpoint\<close> (with the construction of the node and of its bound before it)
  is defined in \<^verbatim>\<open>kdtree_impl.h\<close>, which is not among the sources, and is a parameter
  of the model: it takes the matrix (its list of columns), the leaf size and the index
  array behind \<^verbatim>\<open>old_from_new_ptr\<close> (\<open>None\<close> for the null pointer) and gives the
  tree, the matrix with its columns reordered and the index array as it has left it. The
  two pointer arguments of \<^verbatim>\<open>MakeKdTreeMidpoint\<close> are given as booleans (non-null or
  null), since the arrays behind them are not initialised when the function is called.
\<close>

definition MakeKdTreeMidpoint ::
  "('c list \<Rightarrow> nat \<Rightarrow> index_array option \<Rightarrow> 'node \<times> 'c list \<times> index_array option)
   \<Rightarrow> 'c list \<Rightarrow> nat \<Rightarrow> bool \<Rightarrow> bool
   \<Rightarrow> kd_error + ('node \<times> 'c list \<times> index_array option \<times> index_array option)" where
  "MakeKdTreeMidpoint SplitKdTreeMidpoint matrix leaf_size old_from_new new_from_old =
     (let old_from_new_ptr =
            (if old_from_new
             then Some (fill_old_from_new (length matrix) 0 (ArrayList_Init (length matrix)))
             else None);
          (node, matrix', old') = SplitKdTreeMidpoint matrix leaf_size old_from_new_ptr;
          old_array = (if old_from_new then old' else None)
      in if new_from_old then
           (case fill_new_from_old (length matrix') 0 old_array (ArrayList_Init (length matrix')) of
              Inl e \<Rightarrow> Inl e
            | Inr new \<Rightarrow> Inr (node, matrix', old_array, Some new))
         else Inr (node, matrix', old_array, None))"

section \<open>Properties of the barrier\<close>

subsection \<open>The two for statements\<close>

declare wake_children.simps [simp del] is_child_from.simps [simp del]

lemma wake_children_drop:
  "wake_children t i w =
     w\<lparr>trace := trace w @ map (\<lambda>c. EvSend \<lparr>msg_peer = c, msg_channel = channel w, msg_size = 0\<rparr>)
                              (drop i (children t))\<rparr>"
proof (induction t i w rule: wake_children.induct)
  case (1 t i w)
  show ?case
  proof (cases "i < n_children t")
    case True
    then have d: "drop i (children t) = children t ! i # drop (Suc i) (children t)"
      by (simp add: n_children_def Cons_nth_drop_Suc)
    show ?thesis
      using True 1
      by (subst wake_children.simps) (simp add: d DoMessage_def Send_def CreateMessage_def child_def)
  next
    case False
    then show ?thesis
      by (subst wake_children.simps) (simp add: n_children_def)
  qed
qed

lemma wake_events_children:
  "wake_events t ch =
     map (\<lambda>c. EvSend \<lparr>msg_peer = c, msg_channel = ch, msg_size = 0\<rparr>) (children t)"
proof -
  have "map (\<lambda>i. EvSend \<lparr>msg_peer = children t ! i, msg_channel = ch, msg_size = 0\<rparr>)
          [0..<length (children t)]
        = map (\<lambda>c. EvSend \<lparr>msg_peer = c, msg_channel = ch, msg_size = 0\<rparr>)
            (map ((!) (children t)) [0..<length (children t)])"
    by (simp add: comp_def)
  then show ?thesis
    by (simp add: wake_events_def child_def n_children_def map_nth)
qed

lemma is_child_from_drop: "is_child_from t i peer \<longleftrightarrow> peer \<in> set (drop i (children t))"
proof (induction t i peer rule: is_child_from.induct)
  case (1 t i peer)
  show ?case
  proof (cases "i < n_children t")
    case True
    then have d: "drop i (children t) = children t ! i # drop (Suc i) (children t)"
      by (simp add: n_children_def Cons_nth_drop_Suc)
    show ?thesis
      using True 1
      by (subst is_child_from.simps) (auto simp: d child_def)
  next
    case False
    then show ?thesis
      by (subst is_child_from.simps) (simp add: n_children_def)
  qed
qed

lemma IsValidSender_iff:
  "IsValidSender t peer w \<longleftrightarrow>
     (if n_received w = n_children t then peer = parent t else peer \<in> set (children t))"
  by (simp add: IsValidSender_def is_child_from_drop)

subsection \<open>The three branches of the completion check\<close>

lemma CheckState_complete:
  assumes "(is_root t \<and> n_received w = n_children t) \<or> n_children t < n_received w"
  shows "CheckState t w =
           w\<lparr>cond_done := True,
             registry := (registry w)(channel w := None),
             trace := trace w @ [EvTransactionDone, EvUnregister (channel w)]
                        @ wake_events t (channel w) @ [EvCondDone]\<rparr>"
  using assms
  by (auto simp: CheckState_def cond_Done_def Unregister_def Transaction_Done_def
        wake_children_drop wake_events_children)

lemma CheckState_ready:
  assumes "\<not> is_root t" "n_received w = n_children t"
  shows "CheckState t w =
           w\<lparr>trace := trace w @
               [EvSend \<lparr>msg_peer = parent t, msg_channel = channel w, msg_size = 0\<rparr>]\<rparr>"
  using assms by (simp add: CheckState_def DoMessage_def Send_def CreateMessage_def)

lemma CheckState_idle:
  assumes "n_received w < n_children t"
  shows "CheckState t w = w"
  using assms by (simp add: CheckState_def)

lemma CheckState_cases:
  obtains
    (complete) "(is_root t \<and> n_received w = n_children t) \<or> n_children t < n_received w"
  | (ready) "\<not> is_root t" "n_received w = n_children t"
  | (idle) "n_received w < n_children t"
  by (cases "n_received w" "n_children t" rule: linorder_cases) auto

lemma CheckState_frame:
  "channel (CheckState t w) = channel w" "n_received (CheckState t w) = n_received w"
  by (cases t w rule: CheckState_cases;
      simp add: CheckState_complete CheckState_ready CheckState_idle)+

lemma CheckState_trace: "\<exists>es. trace (CheckState t w) = trace w @ es \<and> EvWriteFlush \<notin> set es"
  by (cases t w rule: CheckState_cases)
     (auto simp: CheckState_complete CheckState_ready CheckState_idle wake_events_def)

subsection \<open>The log only grows\<close>

lemma HandleMessage_trace:
  "HandleMessage t m w = Inr w' \<Longrightarrow> \<exists>es. trace w' = trace w @ es \<and> EvWriteFlush \<notin> set es"
  using CheckState_trace [of t "w\<lparr>n_received := n_received w + 1\<rparr>"]
  by (auto simp: HandleMessage_def split: if_splits)

lemma Dispatch_trace:
  "Dispatch t m w = Inr w' \<Longrightarrow> \<exists>es. trace w' = trace w @ es \<and> EvWriteFlush \<notin> set es"
  by (auto simp: Dispatch_def split: option.splits handler.splits dest!: HandleMessage_trace)

lemma Wait_trace: "\<exists>es. trace (snd (Wait t ms w)) = trace w @ es \<and> EvWriteFlush \<notin> set es"
proof (induction ms arbitrary: w)
  case Nil
  show ?case by simp
next
  case (Cons m ms)
  show ?case
  proof (cases "cond_done w")
    case True
    then show ?thesis by simp
  next
    case False
    show ?thesis
    proof (cases "Dispatch t m w")
      case (Inl e)
      with False show ?thesis by simp
    next
      case (Inr w')
      from Dispatch_trace [OF Inr] obtain es where
        es: "trace w' = trace w @ es" "EvWriteFlush \<notin> set es" by blast
      from Cons.IH [of w'] obtain es' where
        es': "trace (snd (Wait t ms w')) = trace w' @ es'" "EvWriteFlush \<notin> set es'" by blast
      from False Inr es es' show ?thesis by simp
    qed
  qed
qed

lemma Init_trace: "\<exists>es. trace (Init t ch w) = trace w @ es \<and> EvWriteFlush \<notin> set es"
  using CheckState_trace [of t "(Transaction_Init ch w)\<lparr>n_received := 0\<rparr>"]
  by (simp add: Init_def Transaction_Init_def)

subsection \<open>What \<^verbatim>\<open>Init\<close> does, by the shape of the node\<close>

lemma Init_alone:
  "Init \<lparr>is_root = True, parent = p, children = []\<rparr> ch w =
     w\<lparr>channel := ch, n_received := 0, cond_done := True,
       registry := (registry w)(ch := None),
       trace := trace w @ [EvTransactionDone, EvUnregister ch, EvCondDone]\<rparr>"
  by (simp add: Init_def Transaction_Init_def CheckState_complete n_children_def wake_events_def)

lemma Init_leaf:
  assumes "\<not> is_root t" "children t = []"
  shows "Init t ch w =
     w\<lparr>channel := ch, n_received := 0,
       trace := trace w @ [EvSend \<lparr>msg_peer = parent t, msg_channel = ch, msg_size = 0\<rparr>]\<rparr>"
  using assms by (simp add: Init_def Transaction_Init_def CheckState_ready n_children_def)

lemma Init_inner:
  assumes "children t \<noteq> []"
  shows "Init t ch w = w\<lparr>channel := ch, n_received := 0\<rparr>"
  using assms by (simp add: Init_def Transaction_Init_def CheckState_idle n_children_def)

lemma Wait_done: "cond_done w \<Longrightarrow> Wait t ms w = (Returned, w)"
  by (cases ms) simp_all

lemma Wait_Returned: "fst (Wait t ms w) = Returned \<Longrightarrow> cond_done (snd (Wait t ms w))"
proof (induction ms arbitrary: w)
  case Nil
  then show ?case by (simp split: if_splits)
next
  case (Cons m ms)
  then show ?case
    by (cases "cond_done w"; cases "Dispatch t m w") auto
qed

lemma Barrier_entered: "Barrier t ch inbox w = Wait t inbox (entered t ch w)"
  by (simp add: Barrier_def Doit_def entered_def)

lemma entered_n_received: "n_received (entered t ch w) = 0"
  by (simp add: entered_def Register_def Init_def CheckState_frame)

lemma entered_channel: "channel (entered t ch w) = ch"
  by (simp add: entered_def Register_def Init_def CheckState_frame Transaction_Init_def)

lemma entered_pending:
  assumes "\<not> (is_root t \<and> children t = [])"
  shows "\<not> cond_done (entered t ch w)"
proof (cases "children t = []")
  case True
  with assms have "\<not> is_root t" by simp
  from Init_leaf [OF this True] show ?thesis
    by (simp add: entered_def Register_def WriteFlush_def)
next
  case False
  from Init_inner [OF False] show ?thesis
    by (simp add: entered_def Register_def WriteFlush_def)
qed

text \<open>The equations that evaluate a run on concrete inputs.\<close>

lemmas run_simps = entered_def Register_def Init_def Transaction_Init_def WriteFlush_def
  CheckState_def DoMessage_def Send_def CreateMessage_def Dispatch_def HandleMessage_def
  IsValidSender_iff n_children_def cond_Done_def Unregister_def Transaction_Done_def wake_children_drop

subsection \<open>The entry point\<close>

text \<open>
  Claim C8. \<^verbatim>\<open>rpc::Barrier\<close> flushes before anything else: of the calls logged by one
  \<^verbatim>\<open>Barrier\<close>, whatever the topology and the inbound messages, the first is the
  \<^verbatim>\<open>WriteFlush\<close>, which has returned before the next one is made; the registration of
  the channel and every message sent by the barrier come after it, and there is no second
  flush.
\<close>

theorem Barrier_flushes_first:
  "\<exists>es1 es2. trace (snd (Barrier t ch inbox w))
              = trace w @ [EvWriteFlush] @ es1 @ [EvRegister ch] @ es2
         \<and> EvWriteFlush \<notin> set (es1 @ es2)"
proof -
  let ?w1 = "WriteFlush (w\<lparr>cond_done := False\<rparr>)"
  let ?w2 = "Init t ch ?w1"
  let ?w3 = "Register ch BarrierChannel ?w2"
  obtain es1 where es1: "trace ?w2 = trace ?w1 @ es1" "EvWriteFlush \<notin> set es1"
    using Init_trace by blast
  obtain es2 where es2: "trace (snd (Wait t inbox ?w3)) = trace ?w3 @ es2" "EvWriteFlush \<notin> set es2"
    using Wait_trace by blast
  have w1: "trace ?w1 = trace w @ [EvWriteFlush]" by (simp add: WriteFlush_def)
  have w3: "trace ?w3 = trace ?w2 @ [EvRegister ch]" by (simp add: Register_def)
  have "trace (snd (Barrier t ch inbox w)) = trace w @ [EvWriteFlush] @ es1 @ [EvRegister ch] @ es2"
    using es1 es2 w1 w3 by (simp add: Barrier_def Doit_def)
  with es1 es2 show ?thesis by auto
qed

text \<open>
  Claim C5. In a group of one process (the root, with no children) \<^verbatim>\<open>Barrier\<close> returns
  at once: the completion check run from \<^verbatim>\<open>Init\<close> sets the condition, so \<^verbatim>\<open>Wait\<close>
  does not block, whatever is in the inbox. The final state shows that no message was sent
  (no \<open>EvSend\<close> in the log) and none received (no \<open>EvDeliver\<close>, and \<open>n_received\<close>
  is 0).
\<close>

theorem Barrier_alone_returns_at_once:
  "cond_done (Init \<lparr>is_root = True, parent = p, children = []\<rparr> ch w)
   \<and> Barrier \<lparr>is_root = True, parent = p, children = []\<rparr> ch inbox w =
     (Returned,
      w\<lparr>channel := ch, n_received := 0, cond_done := True,
        registry := (registry w)(ch \<mapsto> BarrierChannel),
        trace := trace w @ [EvWriteFlush, EvTransactionDone, EvUnregister ch, EvCondDone,
                            EvRegister ch]\<rparr>)"
  by (simp add: Barrier_def Doit_def Init_alone Wait_done Register_def WriteFlush_def)

text \<open>
  Claim C1, at the input where the code departs from it. For the root with no children the
  completion branch runs inside \<^verbatim>\<open>Init\<close>, so its \<^verbatim>\<open>Unregister\<close> comes before the
  \<^verbatim>\<open>Register\<close> of \<^verbatim>\<open>Doit\<close>: \<^verbatim>\<open>Barrier\<close> returns and the registry still holds the
  entry for the channel id.
\<close>

theorem Barrier_alone_keeps_registry_entry:
  "fst (Barrier \<lparr>is_root = True, parent = p, children = []\<rparr> ch inbox w) = Returned
   \<and> registry (snd (Barrier \<lparr>is_root = True, parent = p, children = []\<rparr> ch inbox w)) ch
       = Some BarrierChannel"
  by (simp add: Barrier_def Doit_def Init_alone Wait_done Register_def WriteFlush_def)

text \<open>
  Claim C2, at the inputs where the code departs from it. \<^verbatim>\<open>Doit\<close> runs \<^verbatim>\<open>Init\<close>
  first and registers the channel afterwards. On the root with no children the calls of one
  \<^verbatim>\<open>Doit\<close> are the three of the completion branch and only then the registration,
  which leaves the channel registered; with the registration first, as the claim has it,
  the same calls come after the registration and the channel ends unregistered. On a leaf
  that is not the root, the ready message to the parent goes out before the channel is
  registered.
\<close>

theorem Doit_runs_Init_before_Register:
  "events_since w (snd (Doit \<lparr>is_root = True, parent = p, children = []\<rparr> ch inbox w))
     = [EvTransactionDone, EvUnregister ch, EvCondDone, EvRegister ch]
   \<and> registry (snd (Doit \<lparr>is_root = True, parent = p, children = []\<rparr> ch inbox w)) ch
     = Some BarrierChannel
   \<and> events_since w
        (snd (Doit_registering_first \<lparr>is_root = True, parent = p, children = []\<rparr> ch inbox w))
     = [EvRegister ch, EvTransactionDone, EvUnregister ch, EvCondDone]
   \<and> registry
        (snd (Doit_registering_first \<lparr>is_root = True, parent = p, children = []\<rparr> ch inbox w)) ch
     = None
   \<and> events_since w (snd (Doit \<lparr>is_root = False, parent = p, children = []\<rparr> ch [] w))
     = [EvSend \<lparr>msg_peer = p, msg_channel = ch, msg_size = 0\<rparr>, EvRegister ch]"
  by (simp add: Doit_def Doit_registering_first_def Init_alone Init_leaf Wait_done Register_def
        events_since_def)

subsection \<open>The message-validity state machine\<close>

lemma HandleMessage_overflow_done:
  assumes "HandleMessage t m w = Inr w'" "n_children t < n_received w'"
  shows "cond_done w'"
proof -
  let ?w = "w\<lparr>n_received := n_received w + 1\<rparr>"
  from assms(1) have w': "w' = CheckState t ?w"
    by (simp add: HandleMessage_def split: if_splits)
  with assms(2) have "n_children t < n_received ?w"
    by (simp add: CheckState_frame)
  then show ?thesis
    unfolding w' by (simp add: CheckState_complete)
qed

lemma Dispatch_overflow_done:
  assumes "Dispatch t m w = Inr w'" "n_children t < n_received w'"
  shows "cond_done w'"
  using assms
  by (auto simp: Dispatch_def split: option.splits handler.splits
        dest: HandleMessage_overflow_done)

lemma deliver_all_overflow_done:
  assumes "n_children t < n_received w \<longrightarrow> cond_done w"
  shows "n_children t < n_received (fst (deliver_all t ms w))
         \<longrightarrow> cond_done (fst (deliver_all t ms w))"
  using assms
proof (induction ms arbitrary: w)
  case Nil
  then show ?case by simp
next
  case (Cons m ms)
  show ?case
  proof (cases "Dispatch t m w")
    case (Inl e)
    with Cons.prems show ?thesis by simp
  next
    case (Inr w')
    have "n_children t < n_received w' \<longrightarrow> cond_done w'"
      using Dispatch_overflow_done [OF Inr] by blast
    from Cons.IH [OF this] Inr show ?thesis by simp
  qed
qed

lemma HandleMessage_fatal_iff:
  "(\<exists>e. HandleMessage t m w = Inl e) \<longleftrightarrow> \<not> IsValidSender t (msg_peer m) w"
  by (simp add: HandleMessage_def)

text \<open>
  Claim C3. A barrier transaction is active when it has been reached from the entry of
  \<^verbatim>\<open>Barrier\<close> by deliveries of the dispatch path and its condition is still pending.
  For an active transaction \<open>n_received\<close> is at most \<open>n_children\<close>, and
  \<^verbatim>\<open>HandleMessage\<close> ends in the fatal error exactly when the sender is invalid for the
  phase: while \<open>n_received < n_children\<close>, exactly when the sender is not one of the
  children (by identity); when \<open>n_received = n_children\<close>, exactly when it is not the
  parent. A message from a rank that is neither a child nor the parent always ends in the
  fatal error; the error carries the unchanged counter and no state comes back, so
  \<open>n_received\<close> is not incremented.
\<close>

theorem HandleMessage_fatal_iff_invalid_sender:
  assumes "w = fst (deliver_all t ms (entered t ch w0))" "\<not> cond_done w"
  shows "n_received w \<le> n_children t
    \<and> (n_received w < n_children t \<longrightarrow>
         ((\<exists>e. HandleMessage t m w = Inl e) \<longleftrightarrow> msg_peer m \<notin> set (children t)))
    \<and> (n_received w = n_children t \<longrightarrow>
         ((\<exists>e. HandleMessage t m w = Inl e) \<longleftrightarrow> msg_peer m \<noteq> parent t))
    \<and> (msg_peer m \<notin> set (children t) \<and> msg_peer m \<noteq> parent t \<longrightarrow>
         HandleMessage t m w = Inl (Unexpected_sender (msg_peer m) (channel w) (n_received w)))"
proof -
  have "n_children t < n_received w \<longrightarrow> cond_done w"
    unfolding assms(1)
    by (rule deliver_all_overflow_done) (simp add: entered_n_received)
  with assms(2) have le: "n_received w \<le> n_children t" by auto
  have lt: "n_received w < n_children t \<longrightarrow>
         ((\<exists>e. HandleMessage t m w = Inl e) \<longleftrightarrow> msg_peer m \<notin> set (children t))"
    by (simp add: HandleMessage_fatal_iff IsValidSender_iff)
  have eq: "n_received w = n_children t \<longrightarrow>
         ((\<exists>e. HandleMessage t m w = Inl e) \<longleftrightarrow> msg_peer m \<noteq> parent t)"
    by (simp add: HandleMessage_fatal_iff IsValidSender_iff)
  have stranger: "msg_peer m \<notin> set (children t) \<and> msg_peer m \<noteq> parent t \<longrightarrow>
         HandleMessage t m w = Inl (Unexpected_sender (msg_peer m) (channel w) (n_received w))"
    by (simp add: HandleMessage_def IsValidSender_iff)
  from le lt eq stranger show ?thesis by blast
qed

theorem HandleMessage_fatal_iff_invalid_sender_witness:
  "\<not> cond_done (fst (deliver_all \<lparr>is_root = False, parent = 0, children = [3, 4]\<rparr>
        [\<lparr>msg_peer = 3, msg_channel = 10, msg_size = 0\<rparr>]
        (entered \<lparr>is_root = False, parent = 0, children = [3, 4]\<rparr> 10
           \<lparr>channel = 0, n_received = 7, cond_done = True, registry = (\<lambda>_. None), trace = []\<rparr>)))
   \<and> HandleMessage \<lparr>is_root = False, parent = 0, children = [3, 4]\<rparr>
        \<lparr>msg_peer = 5, msg_channel = 10, msg_size = 0\<rparr>
        (fst (deliver_all \<lparr>is_root = False, parent = 0, children = [3, 4]\<rparr>
           [\<lparr>msg_peer = 3, msg_channel = 10, msg_size = 0\<rparr>]
           (entered \<lparr>is_root = False, parent = 0, children = [3, 4]\<rparr> 10
              \<lparr>channel = 0, n_received = 7, cond_done = True, registry = (\<lambda>_. None), trace = []\<rparr>)))
       = Inl (Unexpected_sender 5 10 1)"
proof -
  let ?t = "\<lparr>is_root = False, parent = 0, children = [3, 4]\<rparr>"
  let ?w = "fst (deliver_all ?t [\<lparr>msg_peer = 3, msg_channel = 10, msg_size = 0\<rparr>]
        (entered ?t 10
           \<lparr>channel = 0, n_received = 7, cond_done = True, registry = (\<lambda>_. None), trace = []\<rparr>))"
  have active: "\<not> cond_done ?w"
    by (simp add: run_simps)
  have ch: "channel ?w = 10" "n_received ?w = 1"
    by (simp_all add: run_simps)
  from HandleMessage_fatal_iff_invalid_sender [OF refl active,
      of "\<lparr>msg_peer = 5, msg_channel = 10, msg_size = 0\<rparr>"] active ch
  show ?thesis by simp
qed

lemma Dispatch_unregistered:
  "registry w (msg_channel m) = None \<Longrightarrow> Dispatch t m w = Inl (Unregistered_channel (msg_channel m))"
  by (simp add: Dispatch_def)

lemma Dispatch_Inr:
  assumes "Dispatch t m w = Inr w'"
  shows "registry w (msg_channel m) = Some BarrierChannel"
    and "IsValidSender t (msg_peer m) w"
    and "w' = CheckState t (w\<lparr>trace := trace w @ [EvDeliver m], n_received := n_received w + 1\<rparr>)"
  using assms
  by (auto simp: Dispatch_def HandleMessage_def IsValidSender_def
        split: option.splits handler.splits if_splits)

lemma Dispatch_bounded:
  assumes "bounded t ch w" "msg_channel m = ch" "Dispatch t m w = Inr w'"
  shows "bounded t ch w'"
proof -
  let ?w = "w\<lparr>trace := trace w @ [EvDeliver m], n_received := n_received w + 1\<rparr>"
  note d = Dispatch_Inr [OF assms(3)]
  from assms(1,2) d(1) have le: "n_received w \<le> n_children t"
    by (auto simp: bounded_def)
  from assms(1) have c: "channel ?w = ch" by (simp add: bounded_def)
  show ?thesis
  proof (cases "n_received w = n_children t")
    case True
    then have "n_children t < n_received ?w" by simp
    from CheckState_complete [OF disjI2, OF this] c show ?thesis
      unfolding d(3) bounded_def using True by simp
  next
    case False
    with le have "n_received ?w \<le> n_children t" by simp
    with c show ?thesis
      unfolding d(3) bounded_def by (simp add: CheckState_frame)
  qed
qed

lemma deliver_all_bounded:
  assumes "bounded t ch w" "\<forall>m\<in>set ms. msg_channel m = ch"
  shows "bounded t ch (fst (deliver_all t ms w))"
  using assms
proof (induction ms arbitrary: w)
  case Nil
  then show ?case by simp
next
  case (Cons m ms)
  show ?case
  proof (cases "Dispatch t m w")
    case (Inl e)
    with Cons.prems show ?thesis by simp
  next
    case (Inr w')
    from Cons.prems have "bounded t ch w'"
      using Dispatch_bounded [OF _ _ Inr] by simp
    from Cons.IH [OF this] Cons.prems(2) Inr show ?thesis by simp
  qed
qed

lemma entered_bounded: "bounded t ch (entered t ch w0)"
  by (simp add: bounded_def entered_channel entered_n_received)

text \<open>
  Claim C4. Within one barrier instance, whatever messages the dispatch path delivers on
  the barrier's channel after the entry of \<^verbatim>\<open>Barrier\<close>, \<open>n_received\<close> never
  exceeds \<open>n_children + 1\<close>. Once it equals \<open>n_children + 1\<close> the channel is
  unregistered, so a further message on the channel is fatal; and a message accepted when
  the children have all been counted comes from the parent, is the one that takes the
  counter to \<open>n_children + 1\<close>, and leaves the channel unregistered.
\<close>

theorem n_received_bounded:
  assumes "\<forall>m\<in>set ms. msg_channel m = ch" "w = fst (deliver_all t ms (entered t ch w0))"
  shows "n_received w \<le> n_children t + 1
    \<and> (n_received w = n_children t + 1 \<and> msg_channel m = ch \<longrightarrow>
         Dispatch t m w = Inl (Unregistered_channel ch))
    \<and> (n_children t \<le> n_received w \<and> msg_channel m = ch \<and> Dispatch t m w = Inr w' \<longrightarrow>
         n_received w = n_children t \<and> msg_peer m = parent t
         \<and> n_received w' = n_children t + 1 \<and> registry w' ch = None)"
proof -
  have b: "bounded t ch w"
    unfolding assms(2) using entered_bounded assms(1) by (rule deliver_all_bounded)
  then have le: "n_received w \<le> n_children t + 1"
    by (simp add: bounded_def)
  have full: "n_received w = n_children t + 1 \<and> msg_channel m = ch \<longrightarrow>
         Dispatch t m w = Inl (Unregistered_channel ch)"
    using b Dispatch_unregistered [of w m t] by (auto simp: bounded_def)
  have wake: "n_received w = n_children t \<and> msg_peer m = parent t
         \<and> n_received w' = n_children t + 1 \<and> registry w' ch = None"
    if h: "n_children t \<le> n_received w" "msg_channel m = ch" "Dispatch t m w = Inr w'"
  proof -
    note d = Dispatch_Inr [OF h(3)]
    from b h(2) d(1) have "n_received w \<noteq> n_children t + 1"
      by (auto simp: bounded_def)
    with le h(1) have eq: "n_received w = n_children t" by simp
    with d(2) have p: "msg_peer m = parent t"
      by (simp add: IsValidSender_iff)
    from Dispatch_bounded [OF b h(2,3)] eq d(3)
    have "n_received w' = n_children t + 1 \<and> registry w' ch = None"
      by (simp add: bounded_def CheckState_frame)
    with eq p show ?thesis by simp
  qed
  from wake have wake': "n_children t \<le> n_received w \<and> msg_channel m = ch \<and> Dispatch t m w = Inr w' \<longrightarrow>
         n_received w = n_children t \<and> msg_peer m = parent t
         \<and> n_received w' = n_children t + 1 \<and> registry w' ch = None"
    by (intro impI) (elim conjE)
  from le full wake' show ?thesis by (intro conjI)
qed

theorem n_received_bounded_witness:
  "msg_channel \<lparr>msg_peer = 3, msg_channel = 10, msg_size = 0\<rparr> = 10
   \<and> msg_channel \<lparr>msg_peer = 0, msg_channel = 10, msg_size = 0\<rparr> = 10
   \<and> n_received (fst (deliver_all \<lparr>is_root = False, parent = 0, children = [3]\<rparr>
        [\<lparr>msg_peer = 3, msg_channel = 10, msg_size = 0\<rparr>,
         \<lparr>msg_peer = 0, msg_channel = 10, msg_size = 0\<rparr>]
        (entered \<lparr>is_root = False, parent = 0, children = [3]\<rparr> 10
           \<lparr>channel = 0, n_received = 7, cond_done = True, registry = (\<lambda>_. None), trace = []\<rparr>)))
     = n_children \<lparr>is_root = False, parent = 0, children = [3]\<rparr> + 1
   \<and> Dispatch \<lparr>is_root = False, parent = 0, children = [3]\<rparr>
        \<lparr>msg_peer = 3, msg_channel = 10, msg_size = 0\<rparr>
        (fst (deliver_all \<lparr>is_root = False, parent = 0, children = [3]\<rparr>
          [\<lparr>msg_peer = 3, msg_channel = 10, msg_size = 0\<rparr>,
           \<lparr>msg_peer = 0, msg_channel = 10, msg_size = 0\<rparr>]
          (entered \<lparr>is_root = False, parent = 0, children = [3]\<rparr> 10
             \<lparr>channel = 0, n_received = 7, cond_done = True, registry = (\<lambda>_. None), trace = []\<rparr>)))
     = Inl (Unregistered_channel 10)"
proof -
  let ?t = "\<lparr>is_root = False, parent = 0, children = [3]\<rparr>"
  let ?ms = "[\<lparr>msg_peer = 3, msg_channel = 10, msg_size = 0\<rparr>,
              \<lparr>msg_peer = 0, msg_channel = 10, msg_size = 0\<rparr>]"
  let ?w = "fst (deliver_all ?t ?ms (entered ?t 10
           \<lparr>channel = 0, n_received = 7, cond_done = True, registry = (\<lambda>_. None), trace = []\<rparr>))"
  have chans: "\<forall>m\<in>set ?ms. msg_channel m = 10" by simp
  have n: "n_received ?w = n_children ?t + 1"
    by (simp add: run_simps)
  from n_received_bounded [OF chans refl, of ?t _ "\<lparr>msg_peer = 3, msg_channel = 10, msg_size = 0\<rparr>"]
    chans n
  show ?thesis by simp
qed

text \<open>
  Claim C6. On a node that is not the root, when \<open>n_received\<close> reaches
  \<open>n_children\<close> (at \<^verbatim>\<open>Init\<close> for a leaf, at the message of the last child
  otherwise) the transaction sends one message of size 0 to its parent and does nothing
  else: the registry and the condition are as before, and the log has grown by that one
  send. A message of an earlier child only increments the counter.
\<close>

theorem nonroot_sends_one_ready_message:
  assumes "\<not> is_root t"
  shows "(n_children t = 0 \<longrightarrow>
            Init t ch w = w\<lparr>channel := ch, n_received := 0,
              trace := trace w @
                [EvSend \<lparr>msg_peer = parent t, msg_channel = ch, msg_size = 0\<rparr>]\<rparr>)
    \<and> (n_received w + 1 = n_children t \<and> HandleMessage t m w = Inr w' \<longrightarrow>
            w' = w\<lparr>n_received := n_children t,
              trace := trace w @
                [EvSend \<lparr>msg_peer = parent t, msg_channel = channel w, msg_size = 0\<rparr>]\<rparr>)
    \<and> (n_received w + 1 < n_children t \<and> HandleMessage t m w = Inr w' \<longrightarrow>
            w' = w\<lparr>n_received := n_received w + 1\<rparr>)"
proof -
  have leaf: "n_children t = 0 \<longrightarrow>
            Init t ch w = w\<lparr>channel := ch, n_received := 0,
              trace := trace w @
                [EvSend \<lparr>msg_peer = parent t, msg_channel = ch, msg_size = 0\<rparr>]\<rparr>"
    using assms by (simp add: Init_leaf n_children_def)
  have last_child: "n_received w + 1 = n_children t \<and> HandleMessage t m w = Inr w' \<longrightarrow>
            w' = w\<lparr>n_received := n_children t,
              trace := trace w @
                [EvSend \<lparr>msg_peer = parent t, msg_channel = channel w, msg_size = 0\<rparr>]\<rparr>"
    using assms by (auto simp: HandleMessage_def CheckState_ready split: if_splits)
  have earlier: "n_received w + 1 < n_children t \<and> HandleMessage t m w = Inr w' \<longrightarrow>
            w' = w\<lparr>n_received := n_received w + 1\<rparr>"
    by (auto simp: HandleMessage_def CheckState_idle split: if_splits)
  from leaf last_child earlier show ?thesis by (intro conjI)
qed

theorem nonroot_sends_one_ready_message_witness:
  "\<not> is_root \<lparr>is_root = False, parent = 0, children = [3]\<rparr>
   \<and> HandleMessage \<lparr>is_root = False, parent = 0, children = [3]\<rparr>
       \<lparr>msg_peer = 3, msg_channel = 10, msg_size = 0\<rparr>
       \<lparr>channel = 10, n_received = 0, cond_done = False,
        registry = [10 \<mapsto> BarrierChannel], trace = []\<rparr>
     = Inr \<lparr>channel = 10, n_received = 1, cond_done = False,
        registry = [10 \<mapsto> BarrierChannel],
        trace = [EvSend \<lparr>msg_peer = 0, msg_channel = 10, msg_size = 0\<rparr>]\<rparr>"
proof -
  let ?t = "\<lparr>is_root = False, parent = 0, children = [3]\<rparr>"
  let ?m = "\<lparr>msg_peer = 3, msg_channel = 10, msg_size = 0\<rparr>"
  let ?w = "\<lparr>channel = 10, n_received = 0, cond_done = False,
        registry = [10 \<mapsto> BarrierChannel], trace = []\<rparr>"
  have nr: "\<not> is_root ?t" by simp
  obtain w' where w': "HandleMessage ?t ?m ?w = Inr w'"
    by (simp add: HandleMessage_def IsValidSender_iff n_children_def)
  from nonroot_sends_one_ready_message [OF nr, where w = ?w and m = ?m and w' = w'] w'
  show ?thesis by (simp add: n_children_def)
qed



lemma CheckState_count:
  assumes "e = EvCondDone \<or> e = EvUnregister (channel w)"
  shows "count_list (trace (CheckState t w)) e
           = count_list (trace w) e + (if completes t w then 1 else 0)
         \<and> cond_done (CheckState t w) = (cond_done w \<or> completes t w)"
proof (cases t w rule: CheckState_cases)
  case complete
  then have c: "completes t w" by (simp add: completes_def)
  have "count_list (wake_events t (channel w)) e = 0"
    using assms by (auto simp: wake_events_def count_list_0_iff)
  with c assms show ?thesis
    by (auto simp: CheckState_complete [OF complete])
next
  case ready
  then have c: "\<not> completes t w" by (simp add: completes_def)
  with assms show ?thesis
    by (auto simp: CheckState_ready [OF ready])
next
  case idle
  then have c: "\<not> completes t w" by (simp add: completes_def)
  then show ?thesis
    by (simp add: CheckState_idle [OF idle])
qed

lemma Dispatch_once:
  assumes "once e c w" "\<not> cond_done w" "e = EvCondDone \<or> e = EvUnregister (channel w)"
    "Dispatch t m w = Inr w'"
  shows "once e c w' \<and> channel w' = channel w"
proof -
  let ?w = "w\<lparr>trace := trace w @ [EvDeliver m], n_received := n_received w + 1\<rparr>"
  note d = Dispatch_Inr [OF assms(4)]
  have e: "e = EvCondDone \<or> e = EvUnregister (channel ?w)" using assms(3) by simp
  from assms(1,2) have "count_list (trace ?w) e = c" "\<not> cond_done ?w"
    using assms(3) by (auto simp: once_def)
  with CheckState_count [OF e, of t] show ?thesis
    unfolding d(3) once_def by (simp add: CheckState_frame)
qed

lemma Wait_once:
  assumes "once e c w" "e = EvCondDone \<or> e = EvUnregister (channel w)"
  shows "once e c (snd (Wait t ms w))"
  using assms
proof (induction ms arbitrary: w)
  case Nil
  then show ?case by simp
next
  case (Cons m ms)
  show ?case
  proof (cases "cond_done w")
    case True
    with Cons.prems show ?thesis by simp
  next
    case False
    show ?thesis
    proof (cases "Dispatch t m w")
      case (Inl e)
      with False Cons.prems show ?thesis by simp
    next
      case (Inr w')
      from Dispatch_once [OF Cons.prems(1) False Cons.prems(2) Inr]
      have "once e c w'" "e = EvCondDone \<or> e = EvUnregister (channel w')"
        using Cons.prems(2) by auto
      from Cons.IH [OF this] False Inr show ?thesis by simp
    qed
  qed
qed

lemma entered_once:
  assumes "e = EvCondDone \<or> e = EvUnregister ch"
  shows "once e (count_list (trace w) e) (entered t ch w)"
proof -
  let ?w = "(Transaction_Init ch (WriteFlush (w\<lparr>cond_done := False\<rparr>)))\<lparr>n_received := 0\<rparr>"
  have e: "e = EvCondDone \<or> e = EvUnregister (channel ?w)"
    using assms by (simp add: Transaction_Init_def)
  have "count_list (trace ?w) e = count_list (trace w) e" "\<not> cond_done ?w"
    using assms by (auto simp: Transaction_Init_def WriteFlush_def)
  with CheckState_count [OF e, of t] assms show ?thesis
    by (auto simp: once_def entered_def Init_def Register_def)
qed

lemma Barrier_trace_extends: "\<exists>es. trace (snd (Barrier t ch inbox w)) = trace w @ es"
proof -
  let ?w1 = "WriteFlush (w\<lparr>cond_done := False\<rparr>)"
  obtain es1 where "trace (Init t ch ?w1) = trace ?w1 @ es1"
    using Init_trace by blast
  moreover obtain es2 where
    "trace (snd (Wait t inbox (Register ch BarrierChannel (Init t ch ?w1))))
       = trace (Register ch BarrierChannel (Init t ch ?w1)) @ es2"
    using Wait_trace by blast
  ultimately show ?thesis
    by (simp add: Barrier_def Doit_def Register_def WriteFlush_def)
qed

lemma Wait_Returned_iff: "fst (Wait t ms w) = Returned \<longleftrightarrow> cond_done (snd (Wait t ms w))"
proof (induction ms arbitrary: w)
  case Nil
  show ?case by simp
next
  case (Cons m ms)
  then show ?case
    by (cases "cond_done w"; cases "Dispatch t m w") auto
qed

lemma Dispatch_accept:
  assumes "registry w (msg_channel m) = Some BarrierChannel" "IsValidSender t (msg_peer m) w"
  shows "Dispatch t m w
           = Inr (CheckState t (w\<lparr>trace := trace w @ [EvDeliver m],
                                  n_received := n_received w + 1\<rparr>))"
  using assms by (simp add: Dispatch_def HandleMessage_def IsValidSender_def)

lemma Wait_wakes:
  assumes "\<not> cond_done wb" "registry wb (msg_channel m) = Some BarrierChannel"
    "IsValidSender t (msg_peer m) wb"
    "w = wb\<lparr>trace := trace wb @ [EvDeliver m], n_received := n_received wb + 1\<rparr>"
    "(is_root t \<and> n_received w = n_children t) \<or> n_children t < n_received w"
  shows "Wait t [] wb = (Blocked, wb) \<and> Wait t (m # ms) wb = (Returned, CheckState t w)"
proof -
  have d: "Dispatch t m wb = Inr (CheckState t w)"
    unfolding assms(4) using assms(2,3) by (rule Dispatch_accept)
  have "cond_done (CheckState t w)"
    by (simp add: CheckState_complete [OF assms(5)])
  then have "Wait t ms (CheckState t w) = (Returned, CheckState t w)"
    by (rule Wait_done)
  with assms(1) d show ?thesis by simp
qed

lemma Barrier_count:
  assumes "e = EvCondDone \<or> e = EvUnregister ch"
  shows "count_list (events_since w (snd (Barrier t ch inbox w))) e
           = (if fst (Barrier t ch inbox w) = Returned then 1 else 0)"
proof -
  let ?w' = "snd (Barrier t ch inbox w)"
  have "once e (count_list (trace w) e) ?w'"
    unfolding Barrier_entered
    by (rule Wait_once [OF entered_once [OF assms]]) (simp add: entered_channel assms)
  moreover have "cond_done ?w' \<longleftrightarrow> fst (Barrier t ch inbox w) = Returned"
    unfolding Barrier_entered by (simp add: Wait_Returned_iff)
  ultimately have c: "count_list (trace ?w') e
       = count_list (trace w) e + (if fst (Barrier t ch inbox w) = Returned then 1 else 0)"
    by (simp add: once_def)
  obtain es where "trace ?w' = trace w @ es"
    using Barrier_trace_extends by blast
  then have tr: "trace ?w' = trace w @ events_since w ?w'"
    by (simp add: events_since_def)
  have "count_list (trace ?w') e = count_list (trace w) e + count_list (events_since w ?w') e"
    by (subst tr) simp
  with c show ?thesis by simp
qed

lemma entered_registered: "registry (entered t ch w) ch = Some BarrierChannel"
  by (simp add: entered_def Register_def)

lemma entered_done_alone:
  assumes "is_root t" "children t = []"
  shows "cond_done (entered t ch w)"
proof -
  let ?w = "(Transaction_Init ch (WriteFlush (w\<lparr>cond_done := False\<rparr>)))\<lparr>n_received := 0\<rparr>"
  have "(is_root t \<and> n_received ?w = n_children t) \<or> n_children t < n_received ?w"
    using assms by (simp add: n_children_def)
  from CheckState_complete [OF this] show ?thesis
    by (simp add: entered_def Init_def Register_def)
qed

lemma Wait_collect:
  assumes "\<not> cond_done w" "registry w ch = Some BarrierChannel"
    "set ps \<subseteq> set (children t)" "n_received w + length ps < n_children t"
  shows "\<exists>w'. Wait t (map (ready ch) ps @ rest) w = Wait t rest w'
           \<and> \<not> cond_done w' \<and> registry w' ch = Some BarrierChannel
           \<and> n_received w' = n_received w + length ps"
  using assms
proof (induction ps arbitrary: w)
  case Nil
  then show ?case by (intro exI [of _ w]) simp
next
  case (Cons p ps)
  let ?m = "ready ch p"
  let ?w1 = "w\<lparr>trace := trace w @ [EvDeliver ?m], n_received := n_received w + 1\<rparr>"
  have reg: "registry w (msg_channel ?m) = Some BarrierChannel"
    using Cons.prems(2) by (simp add: ready_def)
  have valid: "IsValidSender t (msg_peer ?m) w"
    using Cons.prems(3,4) by (simp add: IsValidSender_iff ready_def)
  have idle: "n_received ?w1 < n_children t"
    using Cons.prems(4) by simp
  have d: "Dispatch t ?m w = Inr ?w1"
    using Dispatch_accept [OF reg valid] CheckState_idle [OF idle] by simp
  have step: "Wait t (map (ready ch) (p # ps) @ rest) w = Wait t (map (ready ch) ps @ rest) ?w1"
    using Cons.prems(1) d by simp
  have "\<exists>w'. Wait t (map (ready ch) ps @ rest) ?w1 = Wait t rest w'
           \<and> \<not> cond_done w' \<and> registry w' ch = Some BarrierChannel
           \<and> n_received w' = n_received ?w1 + length ps"
    using Cons.prems by (intro Cons.IH) simp_all
  with step show ?case by auto
qed

lemma Barrier_blocks_while_collecting:
  assumes "set ps \<subseteq> set (children t)" "length ps < n_children t"
  shows "fst (Barrier t ch (map (ready ch) ps) w0) = Blocked"
proof -
  have nd: "\<not> cond_done (entered t ch w0)"
    using assms(2) by (intro entered_pending) (auto simp: n_children_def)
  from Wait_collect [OF nd entered_registered assms(1), of "[]"] assms(2)
  obtain w' where "Wait t (map (ready ch) ps) (entered t ch w0) = Wait t [] w'" "\<not> cond_done w'"
    by (auto simp: entered_n_received)
  then show ?thesis by (simp add: Barrier_entered)
qed

lemma Barrier_returns_when_woken:
  assumes "set ps \<subseteq> set (children t)" "length ps = n_children t"
  shows "fst (Barrier t ch
            (map (ready ch) ps @ (if is_root t then rest else ready ch (parent t) # rest)) w0)
         = Returned"
proof (cases "children t = []")
  case True
  with assms(2) have ps: "ps = []" by (simp add: n_children_def)
  show ?thesis
  proof (cases "is_root t")
    case root: True
    from entered_done_alone [OF root True] show ?thesis
      using ps root by (simp add: Barrier_entered Wait_done)
  next
    case False
    let ?e = "entered t ch w0"
    let ?m = "ready ch (parent t)"
    let ?w = "?e\<lparr>trace := trace ?e @ [EvDeliver ?m], n_received := n_received ?e + 1\<rparr>"
    have nd: "\<not> cond_done ?e" using False by (intro entered_pending) simp
    have reg: "registry ?e (msg_channel ?m) = Some BarrierChannel"
      by (simp add: ready_def entered_registered)
    have valid: "IsValidSender t (msg_peer ?m) ?e"
      using True by (simp add: IsValidSender_iff entered_n_received n_children_def ready_def)
    have fires: "(is_root t \<and> n_received ?w = n_children t) \<or> n_children t < n_received ?w"
      using True by (simp add: n_children_def)
    from Wait_wakes [OF nd reg valid refl fires, of rest] show ?thesis
      using ps False by (simp add: Barrier_entered)
  qed
next
  case False
  with assms(2) have "ps \<noteq> []" by (auto simp: n_children_def)
  then obtain qs p where ps: "ps = qs @ [p]"
    by (cases ps rule: rev_cases) auto
  let ?tail = "if is_root t then rest else ready ch (parent t) # rest"
  have nd: "\<not> cond_done (entered t ch w0)"
    using False by (intro entered_pending) simp
  have sub: "set qs \<subseteq> set (children t)" and p: "p \<in> set (children t)"
    using assms(1) ps by auto
  have len: "n_received (entered t ch w0) + length qs < n_children t"
    using assms(2) ps by (simp add: entered_n_received)
  from Wait_collect [OF nd entered_registered sub len, of "ready ch p # ?tail"]
  obtain w1 where w1:
    "Wait t (map (ready ch) qs @ ready ch p # ?tail) (entered t ch w0)
       = Wait t (ready ch p # ?tail) w1"
    "\<not> cond_done w1" "registry w1 ch = Some BarrierChannel"
    "n_received w1 = length qs"
    by (auto simp: entered_n_received)
  have k: "Suc (length qs) = n_children t"
    using assms(2) ps by simp
  let ?m = "ready ch p"
  let ?w = "w1\<lparr>trace := trace w1 @ [EvDeliver ?m], n_received := n_received w1 + 1\<rparr>"
  have reg: "registry w1 (msg_channel ?m) = Some BarrierChannel"
    using w1(3) by (simp add: ready_def)
  have valid: "IsValidSender t (msg_peer ?m) w1"
    using p w1(4) k by (simp add: IsValidSender_iff ready_def)
  have full: "n_received ?w = n_children t"
    using w1(4) k by simp
  have goal: "fst (Wait t (ready ch p # ?tail) w1) = Returned"
  proof (cases "is_root t")
    case True
    with full have fires: "(is_root t \<and> n_received ?w = n_children t) \<or> n_children t < n_received ?w"
      by simp
    from Wait_wakes [OF w1(2) reg valid refl fires, of ?tail] show ?thesis by simp
  next
    case nonroot: False
    define w2 where "w2 = CheckState t ?w"
    have w2: "w2 = ?w\<lparr>trace := trace ?w @
               [EvSend \<lparr>msg_peer = parent t, msg_channel = channel ?w, msg_size = 0\<rparr>]\<rparr>"
      unfolding w2_def using nonroot full by (rule CheckState_ready)
    have d: "Dispatch t ?m w1 = Inr w2"
      unfolding w2_def using reg valid by (rule Dispatch_accept)
    let ?mp = "ready ch (parent t)"
    let ?w3 = "w2\<lparr>trace := trace w2 @ [EvDeliver ?mp], n_received := n_received w2 + 1\<rparr>"
    have n2: "n_received w2 = n_children t"
      using full by (simp add: w2)
    have nd2: "\<not> cond_done w2" using w1(2) by (simp add: w2)
    have reg2: "registry w2 (msg_channel ?mp) = Some BarrierChannel"
      using w1(3) by (simp add: w2 ready_def)
    have valid2: "IsValidSender t (msg_peer ?mp) w2"
      using n2 by (simp add: IsValidSender_iff ready_def)
    have fires2: "(is_root t \<and> n_received ?w3 = n_children t) \<or> n_children t < n_received ?w3"
      using n2 by simp
    from Wait_wakes [OF nd2 reg2 valid2 refl fires2, of rest]
    have "fst (Wait t (?mp # rest) w2) = Returned" by simp
    with w1(2) d nonroot show ?thesis by simp
  qed
  show ?thesis
    unfolding Barrier_entered ps using w1(1) goal by simp
qed

lemma Barrier_blocks_until_woken:
  assumes "\<not> is_root t" "set ps \<subseteq> set (children t)" "length ps = n_children t"
  shows "fst (Barrier t ch (map (ready ch) ps) w0) = Blocked"
proof (cases ps rule: rev_cases)
  case Nil
  with assms(3) have "children t = []" by (simp add: n_children_def)
  with assms(1) have "\<not> cond_done (entered t ch w0)"
    by (intro entered_pending) simp
  with Nil show ?thesis by (simp add: Barrier_entered)
next
  case (snoc qs p)
  have nd: "\<not> cond_done (entered t ch w0)"
    using assms(1) by (intro entered_pending) simp
  have sub: "set qs \<subseteq> set (children t)" and p: "p \<in> set (children t)"
    using assms(2) snoc by auto
  have len: "n_received (entered t ch w0) + length qs < n_children t"
    using assms(3) snoc by (simp add: entered_n_received)
  from Wait_collect [OF nd entered_registered sub len, of "[ready ch p]"]
  obtain w1 where w1:
    "Wait t (map (ready ch) qs @ [ready ch p]) (entered t ch w0) = Wait t [ready ch p] w1"
    "\<not> cond_done w1" "registry w1 ch = Some BarrierChannel"
    "n_received w1 = length qs"
    by (auto simp: entered_n_received)
  let ?m = "ready ch p"
  let ?w = "w1\<lparr>trace := trace w1 @ [EvDeliver ?m], n_received := n_received w1 + 1\<rparr>"
  have reg: "registry w1 (msg_channel ?m) = Some BarrierChannel"
    using w1(3) by (simp add: ready_def)
  have valid: "IsValidSender t (msg_peer ?m) w1"
    using p w1(4) assms(3) snoc by (simp add: IsValidSender_iff ready_def)
  have full: "n_received ?w = n_children t"
    using w1(4) assms(3) snoc by simp
  define w2 where "w2 = CheckState t ?w"
  have w2: "w2 = ?w\<lparr>trace := trace ?w @
             [EvSend \<lparr>msg_peer = parent t, msg_channel = channel ?w, msg_size = 0\<rparr>]\<rparr>"
    unfolding w2_def using assms(1) full by (rule CheckState_ready)
  have d: "Dispatch t ?m w1 = Inr w2"
    unfolding w2_def using reg valid by (rule Dispatch_accept)
  have "\<not> cond_done w2" using w1(2) by (simp add: w2)
  with w1(2) d have "fst (Wait t [?m] w1) = Blocked" by simp
  with w1(1) snoc show ?thesis by (simp add: Barrier_entered)
qed

text \<open>
  Claim C7. When the completion branch fires (the root with \<open>n_received = n_children\<close>,
  or \<open>n_received > n_children\<close>) the transaction unregisters its channel, sends one
  message of size 0 to each child, one for each child index, and sets the condition, each
  once, and a \<^verbatim>\<open>Wait\<close> on the resulting state returns. A call that is blocked in
  \<^verbatim>\<open>Wait\<close> (with no message it stays blocked) returns when the message is delivered
  on which the branch fires. For a whole call: \<^verbatim>\<open>Barrier\<close> returns once the ready
  messages of all the children and, on a node that is not the root, the wake message of
  the parent have been delivered, and it is blocked before the last of them. And in every
  \<^verbatim>\<open>Barrier\<close> call the channel is unregistered and the condition signalled once if the
  call returns, and not at all otherwise.
\<close>

theorem completion_branch_effects:
  assumes "(is_root t \<and> n_received w = n_children t) \<or> n_children t < n_received w"
  shows "CheckState t w =
           w\<lparr>cond_done := True,
             registry := (registry w)(channel w := None),
             trace := trace w @ [EvTransactionDone, EvUnregister (channel w)]
                        @ wake_events t (channel w) @ [EvCondDone]\<rparr>
    \<and> Wait t inbox (CheckState t w) = (Returned, CheckState t w)
    \<and> (\<not> cond_done wb \<and> registry wb (msg_channel m) = Some BarrierChannel
         \<and> IsValidSender t (msg_peer m) wb
         \<and> w = wb\<lparr>trace := trace wb @ [EvDeliver m], n_received := n_received wb + 1\<rparr>
       \<longrightarrow> Wait t [] wb = (Blocked, wb) \<and> Wait t (m # ms) wb = (Returned, CheckState t w))
    \<and> (set ps \<subseteq> set (children t) \<and> length ps = n_children t
       \<longrightarrow> fst (Barrier t ch
                 (map (ready ch) ps @ (if is_root t then rest else ready ch (parent t) # rest))
                 w0) = Returned
         \<and> (\<not> is_root t \<longrightarrow> fst (Barrier t ch (map (ready ch) ps) w0) = Blocked)
         \<and> (ps \<noteq> [] \<longrightarrow> fst (Barrier t ch (map (ready ch) (butlast ps)) w0) = Blocked))
    \<and> count_list (events_since w0 (snd (Barrier t ch inbox' w0))) EvCondDone
         = (if fst (Barrier t ch inbox' w0) = Returned then 1 else 0)
    \<and> count_list (events_since w0 (snd (Barrier t ch inbox' w0))) (EvUnregister ch)
         = (if fst (Barrier t ch inbox' w0) = Returned then 1 else 0)"
proof -
  note eq = CheckState_complete [OF assms]
  have "cond_done (CheckState t w)" by (simp add: eq)
  then have ret: "Wait t inbox (CheckState t w) = (Returned, CheckState t w)"
    by (rule Wait_done)
  have wakes: "\<not> cond_done wb \<and> registry wb (msg_channel m) = Some BarrierChannel
         \<and> IsValidSender t (msg_peer m) wb
         \<and> w = wb\<lparr>trace := trace wb @ [EvDeliver m], n_received := n_received wb + 1\<rparr>
       \<longrightarrow> Wait t [] wb = (Blocked, wb) \<and> Wait t (m # ms) wb = (Returned, CheckState t w)"
    using Wait_wakes [OF _ _ _ _ assms] by blast
  have call: "set ps \<subseteq> set (children t) \<and> length ps = n_children t
       \<longrightarrow> fst (Barrier t ch
                 (map (ready ch) ps @ (if is_root t then rest else ready ch (parent t) # rest))
                 w0) = Returned
         \<and> (\<not> is_root t \<longrightarrow> fst (Barrier t ch (map (ready ch) ps) w0) = Blocked)
         \<and> (ps \<noteq> [] \<longrightarrow> fst (Barrier t ch (map (ready ch) (butlast ps)) w0) = Blocked)"
  proof (intro impI conjI)
    assume h: "set ps \<subseteq> set (children t) \<and> length ps = n_children t"
    then show "fst (Barrier t ch
                 (map (ready ch) ps @ (if is_root t then rest else ready ch (parent t) # rest))
                 w0) = Returned"
      using Barrier_returns_when_woken by blast
    show "fst (Barrier t ch (map (ready ch) ps) w0) = Blocked" if "\<not> is_root t"
      using that h Barrier_blocks_until_woken by blast
    show "fst (Barrier t ch (map (ready ch) (butlast ps)) w0) = Blocked" if "ps \<noteq> []"
    proof (rule Barrier_blocks_while_collecting)
      show "set (butlast ps) \<subseteq> set (children t)"
        using h in_set_butlastD by fastforce
      show "length (butlast ps) < n_children t"
        using h that by (simp add: length_greater_0_conv [symmetric] del: length_greater_0_conv)
    qed
  qed
  note c1 = Barrier_count [of EvCondDone ch w0 t inbox']
  note c2 = Barrier_count [of "EvUnregister ch" ch w0 t inbox']
  from eq ret wakes call c1 c2 show ?thesis by (intro conjI) simp_all
qed

theorem completion_branch_effects_witness:
  "n_children \<lparr>is_root = False, parent = 0, children = [3]\<rparr>
     < n_received \<lparr>channel = 10, n_received = 2, cond_done = False,
         registry = [10 \<mapsto> BarrierChannel],
         trace = [EvDeliver \<lparr>msg_peer = 0, msg_channel = 10, msg_size = 0\<rparr>]\<rparr>
   \<and> IsValidSender \<lparr>is_root = False, parent = 0, children = [3]\<rparr> 0
        \<lparr>channel = 10, n_received = 1, cond_done = False,
         registry = [10 \<mapsto> BarrierChannel], trace = []\<rparr>
   \<and> Wait \<lparr>is_root = False, parent = 0, children = [3]\<rparr> []
        \<lparr>channel = 10, n_received = 1, cond_done = False,
         registry = [10 \<mapsto> BarrierChannel], trace = []\<rparr>
     = (Blocked, \<lparr>channel = 10, n_received = 1, cond_done = False,
         registry = [10 \<mapsto> BarrierChannel], trace = []\<rparr>)
   \<and> Wait \<lparr>is_root = False, parent = 0, children = [3]\<rparr>
        [\<lparr>msg_peer = 0, msg_channel = 10, msg_size = 0\<rparr>]
        \<lparr>channel = 10, n_received = 1, cond_done = False,
         registry = [10 \<mapsto> BarrierChannel], trace = []\<rparr>
     = (Returned,
        \<lparr>channel = 10, n_received = 2, cond_done = True, registry = Map.empty,
         trace = [EvDeliver \<lparr>msg_peer = 0, msg_channel = 10, msg_size = 0\<rparr>,
                  EvTransactionDone, EvUnregister 10,
                  EvSend \<lparr>msg_peer = 3, msg_channel = 10, msg_size = 0\<rparr>,
                  EvCondDone]\<rparr>)
   \<and> fst (Barrier \<lparr>is_root = False, parent = 0, children = [3]\<rparr> 10
          [ready 10 3, ready 10 0]
          \<lparr>channel = 0, n_received = 7, cond_done = True, registry = Map.empty, trace = []\<rparr>)
     = Returned
   \<and> fst (Barrier \<lparr>is_root = False, parent = 0, children = [3]\<rparr> 10
          [ready 10 3]
          \<lparr>channel = 0, n_received = 7, cond_done = True, registry = Map.empty, trace = []\<rparr>)
     = Blocked
   \<and> fst (Barrier \<lparr>is_root = False, parent = 0, children = [3]\<rparr> 10
          []
          \<lparr>channel = 0, n_received = 7, cond_done = True, registry = Map.empty, trace = []\<rparr>)
     = Blocked
   \<and> count_list (events_since
          \<lparr>channel = 0, n_received = 7, cond_done = True, registry = Map.empty, trace = []\<rparr>
          (snd (Barrier \<lparr>is_root = False, parent = 0, children = [3]\<rparr> 10
             [ready 10 3, ready 10 0]
             \<lparr>channel = 0, n_received = 7, cond_done = True, registry = Map.empty,
              trace = []\<rparr>))) EvCondDone = 1"
proof -
  let ?t = "\<lparr>is_root = False, parent = 0, children = [3]\<rparr>"
  let ?m = "\<lparr>msg_peer = 0, msg_channel = 10, msg_size = 0\<rparr>"
  let ?wb = "\<lparr>channel = 10, n_received = 1, cond_done = False,
            registry = [10 \<mapsto> BarrierChannel], trace = []\<rparr>"
  let ?w = "\<lparr>channel = 10, n_received = 2, cond_done = False,
            registry = [10 \<mapsto> BarrierChannel], trace = [EvDeliver ?m]\<rparr>"
  let ?start = "\<lparr>channel = 0, n_received = 7, cond_done = True, registry = Map.empty, trace = []\<rparr>"
  have fires: "(is_root ?t \<and> n_received ?w = n_children ?t) \<or> n_children ?t < n_received ?w"
    by (simp add: n_children_def)
  have blocked: "\<not> cond_done ?wb" by simp
  have reg: "registry ?wb (msg_channel ?m) = Some BarrierChannel" by simp
  have valid: "IsValidSender ?t (msg_peer ?m) ?wb"
    by (simp add: IsValidSender_iff n_children_def)
  have step: "?w = ?wb\<lparr>trace := trace ?wb @ [EvDeliver ?m], n_received := n_received ?wb + 1\<rparr>"
    by simp
  have kids: "set [3] \<subseteq> set (children ?t) \<and> length [3 :: int] = n_children ?t"
    by (simp add: n_children_def)
  note inst = completion_branch_effects
    [OF fires, where wb = ?wb and m = ?m and ms = "[]" and ps = "[3]" and rest = "[]"
       and ch = 10 and ?w0.0 = ?start and inbox' = "[ready 10 3, ready 10 0]"]
  from inst [THEN conjunct1]
  have cs: "CheckState ?t ?w =
        \<lparr>channel = 10, n_received = 2, cond_done = True, registry = Map.empty,
         trace = [EvDeliver ?m, EvTransactionDone, EvUnregister 10,
                  EvSend \<lparr>msg_peer = 3, msg_channel = 10, msg_size = 0\<rparr>, EvCondDone]\<rparr>"
    by (simp add: wake_events_children)
  from inst [THEN conjunct2, THEN conjunct2, THEN conjunct1, THEN mp] blocked reg valid step
  have wake: "Wait ?t [] ?wb = (Blocked, ?wb) \<and> Wait ?t [?m] ?wb = (Returned, CheckState ?t ?w)"
    by blast
  from inst [THEN conjunct2, THEN conjunct2, THEN conjunct2, THEN conjunct1, THEN mp, OF kids]
  have call: "fst (Barrier ?t 10 [ready 10 3, ready 10 0] ?start) = Returned"
    "fst (Barrier ?t 10 [ready 10 3] ?start) = Blocked"
    "fst (Barrier ?t 10 [] ?start) = Blocked"
    by simp_all
  from inst [THEN conjunct2, THEN conjunct2, THEN conjunct2, THEN conjunct2, THEN conjunct1] call(1)
  have once: "count_list (events_since ?start (snd (Barrier ?t 10 [ready 10 3, ready 10 0] ?start)))
                EvCondDone = 1"
    by simp
  from cs wake call once fires valid show ?thesis by simp
qed

lemma Dispatch_done_unregistered:
  assumes "\<not> cond_done w" "Dispatch t m w = Inr w'"
  shows "channel w' = channel w \<and> (cond_done w' \<longrightarrow> registry w' (channel w) = None)"
proof -
  let ?w = "w\<lparr>trace := trace w @ [EvDeliver m], n_received := n_received w + 1\<rparr>"
  note d = Dispatch_Inr [OF assms(2)]
  show ?thesis
    unfolding d(3) using assms(1)
    by (cases t ?w rule: CheckState_cases)
       (simp_all add: CheckState_complete CheckState_ready CheckState_idle)
qed

lemma Wait_done_unregistered:
  assumes "cond_done w \<longrightarrow> registry w (channel w) = None"
  shows "channel (snd (Wait t ms w)) = channel w
         \<and> (cond_done (snd (Wait t ms w)) \<longrightarrow> registry (snd (Wait t ms w)) (channel w) = None)"
  using assms
proof (induction ms arbitrary: w)
  case Nil
  then show ?case by simp
next
  case (Cons m ms)
  show ?case
  proof (cases "cond_done w")
    case True
    with Cons.prems show ?thesis by simp
  next
    case False
    show ?thesis
    proof (cases "Dispatch t m w")
      case (Inl e)
      with False show ?thesis by simp
    next
      case (Inr w')
      from Dispatch_done_unregistered [OF False Inr]
      have w': "channel w' = channel w" "cond_done w' \<longrightarrow> registry w' (channel w') = None"
        by simp_all
      from Cons.IH [OF w'(2)] w'(1) False Inr show ?thesis by simp
    qed
  qed
qed

lemma Barrier_clears_registry_unless_alone:
  assumes "fst (Barrier t ch inbox w) = Returned" "\<not> (is_root t \<and> children t = [])"
  shows "registry (snd (Barrier t ch inbox w)) ch = None"
proof -
  have "cond_done (snd (Barrier t ch inbox w))"
    using assms(1) unfolding Barrier_entered by (rule Wait_Returned)
  moreover have "cond_done (entered t ch w) \<longrightarrow> registry (entered t ch w) (channel (entered t ch w)) = None"
    using entered_pending [OF assms(2)] by simp
  from Wait_done_unregistered [OF this, of t inbox]
  have "cond_done (snd (Barrier t ch inbox w)) \<longrightarrow> registry (snd (Barrier t ch inbox w)) ch = None"
    by (simp add: Barrier_entered entered_channel)
  ultimately show ?thesis by simp
qed

text \<open>
  The same count for the dispatch thread on its own, which does not stop when the calling
  thread resumes: on every node but the root with no children, the completion branch has
  fired once when the condition is done and not at all before, whatever is delivered on the
  channel afterwards, because the channel is then unregistered.
\<close>

lemma deliver_all_trace: "\<exists>es. trace (fst (deliver_all t ms w)) = trace w @ es"
proof (induction ms arbitrary: w)
  case Nil
  show ?case by simp
next
  case (Cons m ms)
  show ?case
  proof (cases "Dispatch t m w")
    case (Inl e)
    then show ?thesis by simp
  next
    case (Inr w')
    from Dispatch_trace [OF Inr] obtain es where "trace w' = trace w @ es" by blast
    moreover from Cons.IH [of w'] obtain es' where
      "trace (fst (deliver_all t ms w')) = trace w' @ es'" by blast
    ultimately show ?thesis using Inr by simp
  qed
qed

lemma deliver_all_once:
  assumes "once e c w" "channel w = ch" "cond_done w \<longrightarrow> registry w ch = None"
    "e = EvCondDone \<or> e = EvUnregister ch" "\<forall>m\<in>set ms. msg_channel m = ch"
  shows "once e c (fst (deliver_all t ms w))"
  using assms
proof (induction ms arbitrary: w)
  case Nil
  then show ?case by simp
next
  case (Cons m ms)
  show ?case
  proof (cases "Dispatch t m w")
    case (Inl err)
    with Cons.prems show ?thesis by simp
  next
    case (Inr w')
    note d = Dispatch_Inr [OF Inr]
    from d(1) Cons.prems(2,3,5) have nd: "\<not> cond_done w" by auto
    have e: "e = EvCondDone \<or> e = EvUnregister (channel w)"
      using Cons.prems(2,4) by simp
    from Dispatch_once [OF Cons.prems(1) nd e Inr]
    have o: "once e c w'" "channel w' = ch"
      using Cons.prems(2) by simp_all
    from Dispatch_done_unregistered [OF nd Inr] Cons.prems(2)
    have u: "cond_done w' \<longrightarrow> registry w' ch = None" by simp
    from Cons.IH [OF o u Cons.prems(4)] Cons.prems(5) Inr show ?thesis by simp
  qed
qed

lemma dispatch_thread_completes_once:
  assumes "\<not> (is_root t \<and> children t = [])" "\<forall>m\<in>set ms. msg_channel m = ch"
    "e = EvCondDone \<or> e = EvUnregister ch"
  shows "count_list (events_since w0 (fst (deliver_all t ms (entered t ch w0)))) e
           = (if cond_done (fst (deliver_all t ms (entered t ch w0))) then 1 else 0)"
proof -
  let ?w' = "fst (deliver_all t ms (entered t ch w0))"
  have "once e (count_list (trace w0) e) ?w'"
    using entered_once [OF assms(3)] entered_channel _ assms(3,2)
    by (rule deliver_all_once) (simp add: entered_pending [OF assms(1)])
  then have c: "count_list (trace ?w') e
       = count_list (trace w0) e + (if cond_done ?w' then 1 else 0)"
    by (simp add: once_def)
  obtain es1 where "trace (entered t ch w0) = trace w0 @ es1"
    using Init_trace [of t ch "WriteFlush (w0\<lparr>cond_done := False\<rparr>)"]
    by (auto simp: entered_def Register_def WriteFlush_def)
  moreover obtain es2 where "trace ?w' = trace (entered t ch w0) @ es2"
    using deliver_all_trace by blast
  ultimately have tr: "trace ?w' = trace w0 @ events_since w0 ?w'"
    by (simp add: events_since_def)
  have "count_list (trace ?w') e = count_list (trace w0) e + count_list (events_since w0 ?w') e"
    by (subst tr) simp
  with c show ?thesis by simp
qed

section \<open>Properties of \<^verbatim>\<open>MakeKdTreeMidpoint\<close>\<close>

declare fill_old_from_new.simps [simp del] fill_new_from_old.simps [simp del]

lemma fill_old_from_new_take:
  "i \<le> n \<Longrightarrow> length a = n \<Longrightarrow> fill_old_from_new n i a = take i a @ map Some [i..<n]"
proof (induction n i a rule: fill_old_from_new.induct)
  case (1 n i a)
  show ?case
  proof (cases "i < n")
    case True
    with 1 have "fill_old_from_new n (Suc i) (a[i := Some i])
                   = take (Suc i) (a[i := Some i]) @ map Some [Suc i..<n]"
      by simp
    moreover have "take (Suc i) (a[i := Some i]) = take i a @ [Some i]"
      using True 1(3) by (simp add: take_Suc_conv_app_nth)
    moreover have "[i..<n] = i # [Suc i..<n]"
      using True by (simp add: upt_conv_Cons)
    ultimately show ?thesis
      using True by (subst fill_old_from_new.simps) simp
  next
    case False
    with 1 show ?thesis
      by (subst fill_old_from_new.simps) simp
  qed
qed

lemma fill_old_from_new_identity:
  "fill_old_from_new n 0 (ArrayList_Init n) = map Some [0..<n]"
  by (simp add: fill_old_from_new_take ArrayList_Init_def)

lemma fill_new_from_old_inverse:
  assumes "length old = n" "length new = n" "distinct old"
    "\<forall>j<n. \<exists>k<n. old ! j = Some k" "i \<le> n"
  shows "\<exists>new'. fill_new_from_old n i (Some old) new = Inr new' \<and> length new' = n
           \<and> (\<forall>j k. i \<le> j \<and> j < n \<and> old ! j = Some k \<longrightarrow> new' ! k = Some j)
           \<and> (\<forall>k<n. (\<forall>j. i \<le> j \<and> j < n \<longrightarrow> old ! j \<noteq> Some k) \<longrightarrow> new' ! k = new ! k)"
  using assms
proof (induction n i "Some old" new rule: fill_new_from_old.induct)
  case (1 n i new)
  show ?case
  proof (cases "i < n")
    case False
    with 1(6) have "i = n" by simp
    then show ?thesis
      using 1(3) by (subst fill_new_from_old.simps) auto
  next
    case True
    with 1(5) obtain k where k: "k < n" "old ! i = Some k" by blast
    let ?new = "new[k := Some i]"
    have later: "old ! j \<noteq> Some k" if "Suc i \<le> j" "j < n" for j
    proof
      assume "old ! j = Some k"
      with k(2) have "old ! i = old ! j" by simp
      with 1(4) True that(2) 1(2) have "i = j"
        by (simp add: nth_eq_iff_index_eq)
      with that(1) show False by simp
    qed
    have "\<exists>new'. fill_new_from_old n (Suc i) (Some old) ?new = Inr new' \<and> length new' = n
           \<and> (\<forall>j k. Suc i \<le> j \<and> j < n \<and> old ! j = Some k \<longrightarrow> new' ! k = Some j)
           \<and> (\<forall>k<n. (\<forall>j. Suc i \<le> j \<and> j < n \<longrightarrow> old ! j \<noteq> Some k) \<longrightarrow> new' ! k = ?new ! k)"
      using True k 1(2,3,4,5) by (intro 1(1)) simp_all
    then obtain new' where new':
      "fill_new_from_old n (Suc i) (Some old) ?new = Inr new'" "length new' = n"
      "\<forall>j k. Suc i \<le> j \<and> j < n \<and> old ! j = Some k \<longrightarrow> new' ! k = Some j"
      "\<forall>k<n. (\<forall>j. Suc i \<le> j \<and> j < n \<longrightarrow> old ! j \<noteq> Some k) \<longrightarrow> new' ! k = ?new ! k"
      by blast
    have run: "fill_new_from_old n i (Some old) new = Inr new'"
      using True k 1(2,3) new'(1) by (subst fill_new_from_old.simps) simp
    have at_k: "new' ! k = Some i"
      using new'(4) k(1) later 1(3) by simp
    have hit: "new' ! k' = Some j" if "i \<le> j" "j < n" "old ! j = Some k'" for j k'
    proof (cases "j = i")
      case True
      with that k(2) at_k show ?thesis by simp
    next
      case False
      with that new'(3) show ?thesis by (simp add: Suc_le_eq)
    qed
    have frame: "new' ! k' = new ! k'"
      if "k' < n" "\<forall>j. i \<le> j \<and> j < n \<longrightarrow> old ! j \<noteq> Some k'" for k'
    proof -
      from that(2) True k(2) have "k' \<noteq> k" by auto
      moreover from that have "new' ! k' = ?new ! k'"
        using new'(4) by simp
      ultimately show ?thesis by simp
    qed
    from run new'(2) hit frame show ?thesis by blast
  qed
qed

lemma permuted_identity:
  assumes "mset old = mset (map Some [0..<n])"
  shows "length old = n" "distinct old" "\<forall>j<n. \<exists>k<n. old ! j = Some k"
proof -
  from assms have "size (mset old) = size (mset (map Some [0..<n]))" by simp
  then show len: "length old = n" by simp
  have "distinct (map Some [0..<n])" by (simp add: distinct_map)
  with assms show "distinct old"
    using mset_eq_imp_distinct_iff by blast
  from assms have "set old = set (map Some [0..<n])"
    by (rule mset_eq_setD)
  then have "\<forall>x\<in>set old. \<exists>k<n. x = Some k" by auto
  with len show "\<forall>j<n. \<exists>k<n. old ! j = Some k" by simp
qed

text \<open>
  Claim C10. When \<^verbatim>\<open>SplitKdTreeMidpoint\<close> leaves the index array a permutation of what
  it was given (and keeps the number of columns), \<^verbatim>\<open>MakeKdTreeMidpoint\<close> called with
  both pointers non-null returns with \<^verbatim>\<open>new_from_old\<close> the inverse of \<^verbatim>\<open>old_from_new\<close>:
  \<open>new_from_old[old_from_new[i]] = i\<close> for every \<open>i\<close> below the number of columns.
  With \<^verbatim>\<open>new_from_old\<close> non-null and \<^verbatim>\<open>old_from_new\<close> null, the last loop reads
  through the null pointer as soon as the matrix has a column.
\<close>

theorem MakeKdTreeMidpoint_new_from_old_inverse:
  "(SplitKdTreeMidpoint matrix leaf_size (Some (map Some [0..<length matrix]))
        = (node, matrix', Some old')
      \<and> mset old' = mset (map Some [0..<length matrix])
      \<and> length matrix' = length matrix
    \<longrightarrow> (\<exists>new. MakeKdTreeMidpoint SplitKdTreeMidpoint matrix leaf_size True True
                   = Inr (node, matrix', Some old', Some new)
           \<and> length new = length matrix
           \<and> (\<forall>i<length matrix. \<exists>k<length matrix. old' ! i = Some k \<and> new ! k = Some i)))
   \<and> (0 < length (fst (snd (SplitKdTreeMidpoint matrix leaf_size None)))
    \<longrightarrow> MakeKdTreeMidpoint SplitKdTreeMidpoint matrix leaf_size False True
          = Inl Null_dereference)"
proof (intro conjI impI)
  let ?n = "length matrix"
  assume h: "SplitKdTreeMidpoint matrix leaf_size (Some (map Some [0..<?n]))
        = (node, matrix', Some old')
      \<and> mset old' = mset (map Some [0..<?n]) \<and> length matrix' = ?n"
  note p = permuted_identity [of old' ?n]
  from h have old: "length old' = ?n" "distinct old'" "\<forall>j<?n. \<exists>k<?n. old' ! j = Some k"
    using p by blast+
  from fill_new_from_old_inverse [OF old(1) _ old(2,3), of "ArrayList_Init ?n" 0]
  obtain new where new:
    "fill_new_from_old ?n 0 (Some old') (ArrayList_Init ?n) = Inr new" "length new = ?n"
    "\<forall>j k. j < ?n \<and> old' ! j = Some k \<longrightarrow> new ! k = Some j"
    by (auto simp: ArrayList_Init_def)
  have "MakeKdTreeMidpoint SplitKdTreeMidpoint matrix leaf_size True True
          = Inr (node, matrix', Some old', Some new)"
    using h new(1) by (simp add: MakeKdTreeMidpoint_def fill_old_from_new_identity)
  moreover have "\<forall>i<?n. \<exists>k<?n. old' ! i = Some k \<and> new ! k = Some i"
    using old(3) new(3) by blast
  ultimately show "\<exists>new. MakeKdTreeMidpoint SplitKdTreeMidpoint matrix leaf_size True True
                   = Inr (node, matrix', Some old', Some new)
           \<and> length new = ?n
           \<and> (\<forall>i<?n. \<exists>k<?n. old' ! i = Some k \<and> new ! k = Some i)"
    using new(2) by blast
next
  assume pos: "0 < length (fst (snd (SplitKdTreeMidpoint matrix leaf_size None)))"
  obtain nd mx od where r: "SplitKdTreeMidpoint matrix leaf_size None = (nd, mx, od)"
    by (cases "SplitKdTreeMidpoint matrix leaf_size None")
  with pos have "fill_new_from_old (length mx) 0 None (ArrayList_Init (length mx))
                   = Inl Null_dereference"
    by (subst fill_new_from_old.simps) simp
  with r show "MakeKdTreeMidpoint SplitKdTreeMidpoint matrix leaf_size False True
          = Inl Null_dereference"
    by (simp add: MakeKdTreeMidpoint_def)
qed

theorem MakeKdTreeMidpoint_new_from_old_inverse_witness:
  "(\<lambda>m l a. ((), rev m, map_option rev a)) [10, 20, 30 :: nat] (1 :: nat)
       (Some (map Some [0..<length [10, 20, 30 :: nat]]))
     = ((), [30, 20, 10], Some [Some 2, Some 1, Some 0])
   \<and> mset [Some 2, Some 1, Some (0 :: nat)] = mset (map Some [0..<length [10, 20, 30 :: nat]])
   \<and> (\<exists>new. MakeKdTreeMidpoint (\<lambda>m l a. ((), rev m, map_option rev a)) [10, 20, 30 :: nat] 1
               True True
             = Inr ((), [30, 20, 10], Some [Some 2, Some 1, Some 0], Some new)
          \<and> new ! 2 = Some 0 \<and> new ! 1 = Some 1 \<and> new ! 0 = Some 2)
   \<and> MakeKdTreeMidpoint (\<lambda>m l a. ((), rev m, map_option rev a)) [10, 20, 30 :: nat] 1
        False True = Inl Null_dereference"
proof -
  let ?split = "\<lambda>(m :: nat list) (l :: nat) (a :: index_array option). ((), rev m, map_option rev a)"
  let ?m = "[10, 20, 30 :: nat]"
  have up: "[0..<length ?m] = [0, 1, 2]"
    by (simp add: numeral_eq_Suc)
  have s: "?split ?m 1 (Some (map Some [0..<length ?m])) = ((), [30, 20, 10], Some [Some 2, Some 1, Some 0])"
    by (simp add: up)
  have p: "mset [Some 2, Some 1, Some (0 :: nat)] = mset (map Some [0..<length ?m])"
    by (simp add: up)
  have n: "0 < length (fst (snd (?split ?m 1 None)))" by simp
  note inst = MakeKdTreeMidpoint_new_from_old_inverse
         [of ?split ?m 1 "()" "[30, 20, 10]" "[Some 2, Some 1, Some 0]"]
  from inst [THEN conjunct1, THEN mp] s p
  obtain new where new:
    "MakeKdTreeMidpoint ?split ?m 1 True True
       = Inr ((), [30, 20, 10], Some [Some 2, Some 1, Some 0], Some new)"
    "\<forall>i<length ?m. \<exists>k<length ?m. [Some 2, Some 1, Some 0] ! i = Some k \<and> new ! k = Some i"
    by auto
  from new(2) [rule_format, of 0] new(2) [rule_format, of 1] new(2) [rule_format, of 2]
  have "new ! 2 = Some 0" "new ! 1 = Some 1" "new ! 0 = Some 2"
    by auto
  with new(1) inst [THEN conjunct2, THEN mp, OF n] s p
  show ?thesis by blast
qed

end
